theory Spec2Isabelle
  imports Main
begin

section \<open>Strings\<close>

text \<open>
  A JavaScript string is a sequence of UTF-16 code units. The model writes a string as a
  \<open>char list\<close>, one \<open>char\<close> for one code unit, and so covers the code units below
  \<open>0x100\<close>. The code compares code units with a handful of ASCII characters and with the
  white-space class only; it never looks at a surrogate pair as a whole.
\<close>

text \<open>\<open>Array.prototype.join\<close> on an array of strings.\<close>

fun join :: "string \<Rightarrow> string list \<Rightarrow> string" where
  "join sep [] = []"
| "join sep [x] = x"
| "join sep (x # y # ys) = x @ sep @ join sep (y # ys)"

text \<open>\<open>String.prototype.startsWith\<close>.\<close>

definition startsWith :: "string \<Rightarrow> string \<Rightarrow> bool" where
  "startsWith s p = (take (length p) s = p)"

section \<open>The variant splitter\<close>

text \<open>
  The four local variables of \<open>splitVariants\<close>. \<open>quote\<close> is \<open>null\<close> or the
  quote character that opened the span. \<open>depth\<close> is a JavaScript number that is only
  ever incremented, decremented and compared with 0; it stays an integer far below
  \<open>2^53\<close>, so it is an \<open>int\<close> here.
\<close>

record sv_state =
  parts :: "string list"
  buf :: string
  depth :: int
  quote :: "char option"

definition sv_init :: sv_state where
  "sv_init = \<lparr>parts = [], buf = [], depth = 0, quote = None\<rparr>"

text \<open>
  One iteration of the \<open>for\<close> loop on the character \<open>ch = token[i]\<close>. \<open>prev\<close> is
  \<open>token[i - 1]\<close>, which is \<open>undefined\<close> (here \<open>None\<close>) at \<open>i = 0\<close>; the comparison
  \<open>token[i - 1] !== "\\"\<close> is then true. Every branch of the source ends in \<open>continue\<close>,
  so the branches are an if-chain.
\<close>

definition sv_step :: "char option \<Rightarrow> char \<Rightarrow> sv_state \<Rightarrow> sv_state" where
  "sv_step prev ch s =
     (case quote s of
        Some q \<Rightarrow>
          s\<lparr>buf := buf s @ [ch],
            quote := (if ch = q \<and> prev \<noteq> Some (CHR 0x5C) then None else Some q)\<rparr>
      | None \<Rightarrow>
          if ch = CHR 0x27 \<or> ch = CHR 0x22 then s\<lparr>quote := Some ch, buf := buf s @ [ch]\<rparr>
          else if ch = CHR ''['' then s\<lparr>depth := depth s + 1, buf := buf s @ [ch]\<rparr>
          else if ch = CHR '']'' then s\<lparr>depth := max 0 (depth s - 1), buf := buf s @ [ch]\<rparr>
          else if ch = CHR '':'' \<and> depth s = 0 then s\<lparr>parts := parts s @ [buf s], buf := []\<rparr>
          else s\<lparr>buf := buf s @ [ch]\<rparr>)"

text \<open>The loop \<open>for (let i = 0; i < token.length; i++)\<close>: one step per character, in order.\<close>

fun sv_loop :: "char option \<Rightarrow> string \<Rightarrow> sv_state \<Rightarrow> sv_state" where
  "sv_loop prev [] s = s"
| "sv_loop prev (ch # rest) s = sv_loop (Some ch) rest (sv_step prev ch s)"

text \<open>The state when the loop of \<open>splitVariants(token)\<close> ends.\<close>

definition sv_final :: "string \<Rightarrow> sv_state" where
  "sv_final token = sv_loop None token sv_init"

text \<open>\<open>if (buf) parts.push(buf); return parts\<close>: an empty last buffer is not pushed.\<close>

definition splitVariants :: "string \<Rightarrow> string list" where
  "splitVariants token =
     (let s = sv_final token in if buf s \<noteq> [] then parts s @ [buf s] else parts s)"

section \<open>The token prefixer\<close>

text \<open>\<open>segments.pop() ?? ""\<close>: the last element and the array without it.\<close>

definition pop_last :: "string list \<Rightarrow> string list \<times> string" where
  "pop_last segments = (if segments = [] then ([], []) else (butlast segments, last segments))"

definition prefixOneToken :: "string \<Rightarrow> string \<Rightarrow> string" where
  "prefixOneToken token prefix =
     (if prefix = [] then token
      else
        let (important, token') =
              (if startsWith token ''!'' then (''!'', drop 1 token) else ([], token));
            (segments, lst) = pop_last (splitVariants token')
        in if startsWith lst prefix
           then important @ join '':'' (segments @ [lst])
           else important @ join '':'' (segments @ [prefix @ lst]))"

text \<open>
  Lines 262 to 271 of \<open>prefixOneToken\<close> on their own: what the function does to the
  token once the marker is taken off, before the marker is put back in front.
\<close>

definition prefixRoot :: "string \<Rightarrow> string \<Rightarrow> string" where
  "prefixRoot token' prefix =
     (let (segments, lst) = pop_last (splitVariants token')
      in join '':'' (segments @ [if startsWith lst prefix then lst else prefix @ lst]))"

section \<open>The token classifier\<close>

definition TW_ROOTS :: "string list" where
  "TW_ROOTS = [
    ''container'', ''sr-only'', ''not-sr-only'', ''static'', ''fixed'', ''absolute'',
    ''relative'', ''sticky'', ''block'', ''inline'', ''inline-block'', ''inline-flex'',
    ''flex'', ''grid'', ''table'', ''contents'', ''hidden'', ''m'', ''mx'', ''my'', ''mt'',
    ''mr'', ''mb'', ''ml'', ''p'', ''px'', ''py'', ''pt'', ''pr'', ''pb'', ''pl'',
    ''space-x'', ''space-y'', ''w'', ''h'', ''min-w'', ''min-h'', ''max-w'', ''max-h'',
    ''size'', ''inset'', ''top'', ''right'', ''bottom'', ''left'', ''font'', ''text'',
    ''antialiased'', ''subpixel-antialiased'', ''tracking'', ''leading'', ''list'',
    ''placeholder'', ''bg'', ''from'', ''via'', ''to'', ''border'', ''rounded'',
    ''shadow'', ''ring'', ''outline'', ''opacity'', ''decoration'', ''flex-grow'',
    ''grow'', ''flex-shrink'', ''shrink'', ''basis'', ''order'', ''grid-cols'',
    ''grid-rows'', ''col'', ''row'', ''gap'', ''place'', ''items'', ''justify'',
    ''content'', ''self'', ''auto-cols'', ''auto-rows'', ''transform'', ''scale'',
    ''rotate'', ''translate'', ''skew'', ''origin'', ''transition'', ''duration'',
    ''ease'', ''delay'', ''cursor'', ''select'', ''resize'', ''scroll'', ''snap'',
    ''touch'', ''pointer-events'', ''accent'', ''appearance'', ''fill'', ''stroke'',
    ''stroke-w'', ''filter'', ''backdrop'', ''z'', ''overflow'', ''object'', ''align'',
    ''whitespace'', ''break'', ''isolate'', ''isolation'']"

text \<open>The character classes \<open>[A-Z]\<close> and \<open>[a-z-]\<close> of the two regular expressions.\<close>

definition is_upper :: "char \<Rightarrow> bool" where
  "is_upper c = (c \<in> set ''ABCDEFGHIJKLMNOPQRSTUVWXYZ'')"

definition is_lower_or_dash :: "char \<Rightarrow> bool" where
  "is_lower_or_dash c = (c \<in> set ''abcdefghijklmnopqrstuvwxyz-'')"

text \<open>\<open>String.prototype.split\<close> with a separator of one character.\<close>

fun split_on :: "char \<Rightarrow> string \<Rightarrow> string \<Rightarrow> string list" where
  "split_on sep cur [] = [cur]"
| "split_on sep cur (c # cs) =
     (if c = sep then cur # split_on sep [] cs else split_on sep (cur @ [c]) cs)"

text \<open>
  \<open>segments[segments.length - 1]\<close> is \<open>undefined\<close> on an empty array, and
  \<open>!core\<close> is true for \<open>undefined\<close> and for the empty string. The \<open>if\<close> on the first
  character of the token has an empty body and is left out.
\<close>

definition isLikelyTailwindToken :: "string \<Rightarrow> bool" where
  "isLikelyTailwindToken token =
     (if token = [] \<or> list_ex is_upper token then False
      else
        let segments = splitVariants token
        in if segments = [] then False
           else
             let core = last segments
             in if core = [] then False
                else if core \<in> set TW_ROOTS
                        \<or> (case split_on (CHR ''-'') [] core of
                              [] \<Rightarrow> False | c0 # _ \<Rightarrow> c0 \<in> set TW_ROOTS)
                     then True
                else if (core \<noteq> [] \<and> list_all is_lower_or_dash core) \<and> core \<in> set TW_ROOTS
                     then True
                else False)"

section \<open>The string rewriter\<close>

text \<open>
  The class \<open>\s\<close> of a JavaScript regular expression, on the code units below \<open>0x100\<close>:
  tab, line feed, vertical tab, form feed, carriage return, space and no-break space.
\<close>

definition is_space :: "char \<Rightarrow> bool" where
  "is_space c = (c \<in> set [CHR 0x09, CHR 0x0A, CHR 0x0B, CHR 0x0C, CHR 0x0D, CHR 0x20, CHR 0xA0])"

text \<open>
  \<open>input.split(/\s+/g)\<close>: the pieces between the maximal runs of white space, an empty
  piece before a leading run and after a trailing one. \<open>inws\<close> says that the character
  before was white space.
\<close>

fun split_ws :: "bool \<Rightarrow> string \<Rightarrow> string \<Rightarrow> string list" where
  "split_ws inws cur [] = [cur]"
| "split_ws inws cur (c # cs) =
     (if is_space c
      then (if inws then split_ws True cur cs else cur # split_ws True [] cs)
      else split_ws False (cur @ [c]) cs)"

text \<open>The \<open>for (const tok of tokens)\<close> loop; \<open>out\<close> is the array it pushes to.\<close>

fun tcis_loop :: "(string \<Rightarrow> bool) option \<Rightarrow> string \<Rightarrow> string list \<Rightarrow> string list \<Rightarrow> string list" where
  "tcis_loop isTw prefix [] out = out"
| "tcis_loop isTw prefix (tok # toks) out =
     (if tok = [] then tcis_loop isTw prefix toks out
      else
        let shouldPrefix = (case isTw of Some f \<Rightarrow> f tok | None \<Rightarrow> isLikelyTailwindToken tok)
        in tcis_loop isTw prefix toks
             (out @ [if shouldPrefix then prefixOneToken tok prefix else tok]))"

definition transformClassesInString :: "string \<Rightarrow> string \<Rightarrow> (string \<Rightarrow> bool) option \<Rightarrow> string" where
  "transformClassesInString input prefix isTw =
     join '' '' (tcis_loop isTw prefix (split_ws False [] input) [])"

section \<open>The syntax tree\<close>

text \<open>
  The nodes of the Babel tree that the visitor tells apart; every other kind of node is
  an \<open>OtherNode\<close> with its kind and its children. A template element carries its
  \<open>cooked\<close> text, which may be missing, and its \<open>raw\<close> text.
\<close>

datatype quasi = TemplateElement (cooked: "string option") (raw: string)

datatype jsx_name = JSXIdentifier string | JSXNamespacedName string string

datatype node =
    StringLiteral string
  | TemplateLiteral "quasi list" "node list"
  | LogicalExpression string node node
  | CallExpression node "node list"
  | Identifier string
  | JSXExpressionContainer node
  | JSXAttribute jsx_name "node option"
  | OtherNode string "node list"

text \<open>\<open>path.node.name.name\<close> is a string for a \<open>JSXIdentifier\<close> only.\<close>

fun isTargetJSXAttribute :: "jsx_name \<Rightarrow> string list \<Rightarrow> bool" where
  "isTargetJSXAttribute (JSXIdentifier name) names = (name \<in> set names)"
| "isTargetJSXAttribute (JSXNamespacedName ns name) names = False"

text \<open>
  \<open>transformTemplateLiteralIfStatic\<close>, given the \<open>quasis\<close> and \<open>expressions\<close> of the
  template literal; \<open>null\<close> is \<open>None\<close>.
\<close>

definition transformTemplateLiteralIfStatic ::
    "quasi list \<Rightarrow> node list \<Rightarrow> string \<Rightarrow> (string \<Rightarrow> bool) option \<Rightarrow> node option" where
  "transformTemplateLiteralIfStatic quasis expressions prefix isTw =
     (if length expressions > 0 then None
      else
        let raw' = concat (map (\<lambda>q. case cooked q of Some c \<Rightarrow> c | None \<Rightarrow> raw q) quasis)
        in Some (StringLiteral (transformClassesInString raw' prefix isTw)))"

text \<open>
  The body of \<open>for (const arg of args)\<close>. The source changes the node in place; a template
  literal whose \<open>type\<close> is set to \<open>"StringLiteral"\<close> and whose \<open>value\<close> is set is a
  string literal from then on.
\<close>

fun rewrite_arg :: "string \<Rightarrow> (string \<Rightarrow> bool) option \<Rightarrow> node \<Rightarrow> node" where
  "rewrite_arg prefix isTw (StringLiteral v) =
     StringLiteral (transformClassesInString v prefix isTw)"
| "rewrite_arg prefix isTw (TemplateLiteral qs es) =
     (case transformTemplateLiteralIfStatic qs es prefix isTw of
        Some (StringLiteral v) \<Rightarrow> StringLiteral v
      | _ \<Rightarrow> TemplateLiteral qs es)"
| "rewrite_arg prefix isTw (LogicalExpression operator l (StringLiteral v)) =
     LogicalExpression operator l (StringLiteral (transformClassesInString v prefix isTw))"
| "rewrite_arg prefix isTw (LogicalExpression operator l (TemplateLiteral qs es)) =
     (case transformTemplateLiteralIfStatic qs es prefix isTw of
        Some (StringLiteral v) \<Rightarrow> LogicalExpression operator l (StringLiteral v)
      | _ \<Rightarrow> LogicalExpression operator l (TemplateLiteral qs es))"
| "rewrite_arg prefix isTw arg = arg"

text \<open>
  The \<open>JSXAttribute\<close> handler, from the name and the value of the attribute to its new
  value. The three \<open>if\<close> statements run in the order of the source: the helper call
  first, then the string literal, then the template literal.
\<close>

definition helper_call :: "string \<Rightarrow> (string \<Rightarrow> bool) option \<Rightarrow> node option \<Rightarrow> node option" where
  "helper_call prefix isTw val =
     (case val of
        Some (JSXExpressionContainer (CallExpression (Identifier callee) args)) \<Rightarrow>
          if callee = ''clsx'' \<or> callee = ''classnames''
          then Some (JSXExpressionContainer
                 (CallExpression (Identifier callee) (map (rewrite_arg prefix isTw) args)))
          else val
      | _ \<Rightarrow> val)"

definition visit_JSXAttribute ::
    "string list \<Rightarrow> string \<Rightarrow> (string \<Rightarrow> bool) option \<Rightarrow> jsx_name \<Rightarrow> node option \<Rightarrow> node option" where
  "visit_JSXAttribute attrs prefix isTw name val =
     (if \<not> isTargetJSXAttribute name attrs then val
      else
        let val1 = helper_call prefix isTw val
        in case val1 of
             Some (StringLiteral v) \<Rightarrow> Some (StringLiteral (transformClassesInString v prefix isTw))
           | Some (JSXExpressionContainer (TemplateLiteral qs es)) \<Rightarrow>
               (case transformTemplateLiteralIfStatic qs es prefix isTw of
                  Some replaced \<Rightarrow> Some replaced
                | None \<Rightarrow> val1)
           | _ \<Rightarrow> val1)"

section \<open>The traversal\<close>

text \<open>
  \<open>traverse(ast, { JSXAttribute(path) { ... } })\<close> calls the handler when it enters a
  \<open>JSXAttribute\<close> node and then walks the children the node has after the call. The
  handler never makes a value larger, which is why the walk ends.
\<close>

function traverse :: "string list \<Rightarrow> string \<Rightarrow> (string \<Rightarrow> bool) option \<Rightarrow> node \<Rightarrow> node" where
  "traverse attrs prefix isTw (JSXAttribute name val) =
     JSXAttribute name (map_option (traverse attrs prefix isTw)
       (visit_JSXAttribute attrs prefix isTw name val))"
| "traverse attrs prefix isTw (StringLiteral v) = StringLiteral v"
| "traverse attrs prefix isTw (TemplateLiteral qs es) =
     TemplateLiteral qs (map (traverse attrs prefix isTw) es)"
| "traverse attrs prefix isTw (LogicalExpression operator l r) =
     LogicalExpression operator (traverse attrs prefix isTw l) (traverse attrs prefix isTw r)"
| "traverse attrs prefix isTw (CallExpression callee args) =
     CallExpression (traverse attrs prefix isTw callee) (map (traverse attrs prefix isTw) args)"
| "traverse attrs prefix isTw (Identifier x) = Identifier x"
| "traverse attrs prefix isTw (JSXExpressionContainer e) =
     JSXExpressionContainer (traverse attrs prefix isTw e)"
| "traverse attrs prefix isTw (OtherNode kind children) =
     OtherNode kind (map (traverse attrs prefix isTw) children)"
  by pat_completeness auto
termination
proof (relation "measure (\<lambda>(attrs, prefix, isTw, n). size n)", goal_cases)
  case 1
  then show ?case by simp
next
  case (2 attrs prefix isTw name val x)
  have ra: "size (rewrite_arg p f arg) \<le> size arg" for p f arg
    by (induction p f arg rule: rewrite_arg.induct)
       (auto simp: transformTemplateLiteralIfStatic_def)
  have rl: "size_list (size \<circ> rewrite_arg p f) args \<le> size_list size args" for p f args
    by (induction args) (simp_all add: ra add_mono)
  have hc: "size_option size (helper_call p f v) \<le> size_option size v" for p f v
    by (auto simp: helper_call_def rl split: option.splits node.splits)
  have "size_option size (visit_JSXAttribute attrs prefix isTw name val)
          \<le> size_option size (helper_call prefix isTw val)
        \<or> visit_JSXAttribute attrs prefix isTw name val = val"
    by (auto simp: visit_JSXAttribute_def Let_def transformTemplateLiteralIfStatic_def
        split: option.splits node.splits)
  then have le: "size_option size (visit_JSXAttribute attrs prefix isTw name val)
                   \<le> size_option size val"
    using hc [of prefix isTw val] by auto
  from 2 have "size x < Suc (size_option size (visit_JSXAttribute attrs prefix isTw name val))"
    by (cases "visit_JSXAttribute attrs prefix isTw name val") auto
  then show ?case using le by simp
next
  case (3 attrs prefix isTw qs es x)
  then show ?case by (simp add: size_list_estimation' less_Suc_eq_le)
next
  case 4 then show ?case by simp
next
  case 5 then show ?case by simp
next
  case 6 then show ?case by simp
next
  case (7 attrs prefix isTw callee args x)
  then have "size x \<le> size_list size args" by (simp add: size_list_estimation')
  then show ?case by simp
next
  case 8 then show ?case by simp
next
  case (9 attrs prefix isTw kind children x)
  then show ?case by (simp add: size_list_estimation' less_Suc_eq_le)
qed

section \<open>The plugin\<close>



















section \<open>Babel on the texts of the examples\<close>








section \<open>Words of the specification\<close>

text \<open>
  An uppercase letter, as the specification says it of a token: a character of the
  Unicode category Lu. Below \<open>0x100\<close> these are \<open>A\<close> to \<open>Z\<close>, \<open>U+00C0\<close> to
  \<open>U+00D6\<close> and \<open>U+00D8\<close> to \<open>U+00DE\<close>. The classifier tests \<open>[A-Z]\<close>, which is
  \<open>is_upper\<close>.
\<close>

definition is_uppercase_letter :: "char \<Rightarrow> bool" where
  "is_uppercase_letter c =
     (let n = (of_char c :: nat)
      in (0x41 \<le> n \<and> n \<le> 0x5A) \<or> (0xC0 \<le> n \<and> n \<le> 0xD6) \<or> (0xD8 \<le> n \<and> n \<le> 0xDE))"

section \<open>Notions for the proofs\<close>

text \<open>
  \<open>track prev x (d, q)\<close> follows the depth and the quote state of the splitter over the
  characters of \<open>x\<close>, from depth \<open>d\<close> and quote state \<open>q\<close>, and is \<open>None\<close> as soon as
  the splitter would cut at a colon. It is used to say that a piece of text is one
  segment for the splitter.
\<close>

fun track :: "char option \<Rightarrow> string \<Rightarrow> int \<times> char option \<Rightarrow> (int \<times> char option) option" where
  "track prev [] dq = Some dq"
| "track prev (c # cs) (d, Some qc) =
     track (Some c) cs (d, if c = qc \<and> prev \<noteq> Some (CHR 0x5C) then None else Some qc)"
| "track prev (c # cs) (d, None) =
     (if c = CHR 0x27 \<or> c = CHR 0x22 then track (Some c) cs (d, Some c)
      else if c = CHR ''['' then track (Some c) cs (d + 1, None)
      else if c = CHR '']'' then track (Some c) cs (max 0 (d - 1), None)
      else if c = CHR '':'' \<and> d = 0 then None
      else track (Some c) cs (d, None))"

text \<open>
  What holds of the state of the splitter all along the loop: every part, and the
  buffer, is one segment when it is read again from the start; inside a quote the
  character before is the last one of the buffer.
\<close>

definition sv_inv :: "char option \<Rightarrow> sv_state \<Rightarrow> bool" where
  "sv_inv pv s =
     (list_all (\<lambda>x. track None x (0, None) = Some (0, None)) (parts s)
      \<and> track None (buf s) (0, None) = Some (depth s, quote s)
      \<and> (quote s \<noteq> None \<longrightarrow> buf s \<noteq> [] \<and> pv = Some (last (buf s))))"



section \<open>Properties of the splitter\<close>

lemma join_snoc: "xs \<noteq> [] \<Longrightarrow> join sep (xs @ [b]) = join sep xs @ sep @ b"
  by (induction sep xs rule: join.induct) auto

lemma join_parts_buf_snoc: "join sep (ps @ [b @ [c]]) = join sep (ps @ [b]) @ [c]"
  by (cases "ps = []") (simp_all add: join_snoc)

lemma join_snoc2: "join sep (ps @ [b, c]) = join sep (ps @ [b]) @ sep @ c"
  using join_snoc [of "ps @ [b]" sep c] by simp

lemma sv_loop_append:
  "sv_loop prev (xs @ ys) s = sv_loop (if xs = [] then prev else Some (last xs)) ys (sv_loop prev xs s)"
  by (induction xs arbitrary: prev s) auto

lemma sv_step_join:
  "join '':'' (parts (sv_step prev c s) @ [buf (sv_step prev c s)]) = join '':'' (parts s @ [buf s]) @ [c]"
  by (auto simp: sv_step_def join_parts_buf_snoc join_snoc2 split: option.splits)

lemma sv_loop_join:
  "join '':'' (parts (sv_loop prev xs s) @ [buf (sv_loop prev xs s)]) = join '':'' (parts s @ [buf s]) @ xs"
  by (induction xs arbitrary: prev s) (simp_all add: sv_step_join)

lemma sv_final_join: "join '':'' (parts (sv_final t) @ [buf (sv_final t)]) = t"
  by (simp add: sv_final_def sv_loop_join sv_init_def)

lemma sv_step_depth: "0 \<le> depth s \<Longrightarrow> 0 \<le> depth (sv_step prev c s)"
  by (auto simp: sv_step_def split: option.splits)

lemma sv_loop_depth: "0 \<le> depth s \<Longrightarrow> 0 \<le> depth (sv_loop prev xs s)"
  by (induction xs arbitrary: prev s) (simp_all add: sv_step_depth)

lemma sv_final_depth: "0 \<le> depth (sv_final t)"
  by (simp add: sv_final_def sv_loop_depth sv_init_def)

lemma sv_step_buf_empty:
  "buf (sv_step prev c s) = [] \<Longrightarrow> c = CHR '':'' \<and> parts (sv_step prev c s) \<noteq> []"
  by (auto simp: sv_step_def split: option.splits if_splits)

lemma sv_final_buf_empty:
  assumes "buf (sv_final t) = []" "t \<noteq> []"
  shows "last t = CHR '':'' \<and> parts (sv_final t) \<noteq> []"
proof -
  from assms(2) have t: "t = butlast t @ [last t]" by simp
  have "sv_final t = sv_loop None (butlast t @ [last t]) sv_init"
    using t by (simp add: sv_final_def)
  then obtain p s where "sv_final t = sv_step p (last t) s"
    by (simp add: sv_loop_append)
  with assms(1) show ?thesis using sv_step_buf_empty by metis
qed

lemma splitVariants_join_cases:
  "join '':'' (splitVariants t) = t \<or> join '':'' (splitVariants t) @ '':'' = t"
proof (cases "buf (sv_final t) = []")
  case False
  then show ?thesis using sv_final_join [of t] by (simp add: splitVariants_def Let_def)
next
  case True
  show ?thesis
  proof (cases "t = []")
    case True
    then show ?thesis by (simp add: splitVariants_def sv_final_def sv_init_def)
  next
    case False
    with True have "parts (sv_final t) \<noteq> []" using sv_final_buf_empty by blast
    then have "join '':'' (parts (sv_final t)) @ '':'' = t"
      using sv_final_join [of t] True by (simp add: join_snoc)
    then show ?thesis using True by (simp add: splitVariants_def Let_def)
  qed
qed

text \<open>
  Claim C3, as amended. Joining the segments of \<open>splitVariants\<close> with \<open>:\<close> gives the
  token back whenever the token does not end with a colon, whether or not it has colons
  inside brackets or quotes; and for every token the only thing a join can lose is one
  final colon, the one that left the last buffer empty.
\<close>

theorem splitVariants_roundtrip:
  "(t = [] \<or> last t \<noteq> CHR '':'' \<longrightarrow> join '':'' (splitVariants t) = t)
   \<and> (join '':'' (splitVariants t) = t \<or> join '':'' (splitVariants t) @ '':'' = t)"
proof -
  have "join '':'' (splitVariants t) = t" if h: "t = [] \<or> last t \<noteq> CHR '':''"
  proof (cases "t = []")
    case True
    then show ?thesis by (simp add: splitVariants_def sv_final_def sv_init_def)
  next
    case False
    with h have "buf (sv_final t) \<noteq> []" using sv_final_buf_empty by blast
    then show ?thesis using sv_final_join [of t] by (simp add: splitVariants_def Let_def)
  qed
  then show ?thesis using splitVariants_join_cases by blast
qed

theorem splitVariants_roundtrip_witness:
  "last ''data-[state=open]:hover:bg-red-500'' \<noteq> CHR '':''
   \<and> join '':'' (splitVariants ''data-[state=open]:hover:bg-red-500'')
       = ''data-[state=open]:hover:bg-red-500''"
  using splitVariants_roundtrip [of "''data-[state=open]:hover:bg-red-500''"] by simp

text \<open>
  Claim C3 as the specification states it fails on a token that ends with a colon:
  \<open>a:\<close> has no bracket and no quote at all, and its segments join to \<open>a\<close>.
\<close>

theorem splitVariants_roundtrip_counterexample:
  "CHR ''['' \<notin> set ''a:'' \<and> CHR '']'' \<notin> set ''a:'' \<and> CHR 0x27 \<notin> set ''a:''
   \<and> CHR 0x22 \<notin> set ''a:'' \<and> splitVariants ''a:'' = [''a'']
   \<and> join '':'' (splitVariants ''a:'') \<noteq> ''a:''"
  by (simp add: splitVariants_def sv_final_def sv_init_def sv_step_def)

lemma sv_loop_deep:
  "1 \<le> depth s \<Longrightarrow> CHR '']'' \<notin> set ys \<Longrightarrow>
   parts (sv_loop prev ys s) = parts s \<and> buf (sv_loop prev ys s) = buf s @ ys
   \<and> 1 \<le> depth (sv_loop prev ys s)"
proof (induction ys arbitrary: prev s)
  case Nil
  then show ?case by simp
next
  case (Cons c ys)
  have st: "parts (sv_step prev c s) = parts s \<and> buf (sv_step prev c s) = buf s @ [c]
      \<and> 1 \<le> depth (sv_step prev c s)"
    using Cons.prems by (auto simp: sv_step_def split: option.splits)
  from Cons.prems have "CHR '']'' \<notin> set ys" by simp
  from Cons.IH [OF _ this, of "sv_step prev c s" "Some c"] st show ?case by simp
qed

lemma sv_loop_quoted:
  "quote s = Some q \<Longrightarrow> q \<notin> set ys \<Longrightarrow> sv_loop prev ys s = s\<lparr>buf := buf s @ ys\<rparr>"
proof (induction ys arbitrary: prev s)
  case Nil
  then show ?case by simp
next
  case (Cons c ys)
  have st: "sv_step prev c s = s\<lparr>buf := buf s @ [c]\<rparr>"
    using Cons.prems by (auto simp: sv_step_def)
  from Cons.prems have "q \<notin> set ys" by simp
  from Cons.IH [OF _ this, of "s\<lparr>buf := buf s @ [c]\<rparr>" "Some c"] Cons.prems(1) st
  show ?case by simp
qed

lemma sv_final_append:
  "sv_final (xs @ ys) = sv_loop (if xs = [] then None else Some (last xs)) ys (sv_final xs)"
  by (simp add: sv_final_def sv_loop_append)

lemma unterminated_bracket:
  assumes "quote (sv_final xs) = None" "CHR '']'' \<notin> set ys"
  shows "splitVariants (xs @ CHR ''['' # ys) = parts (sv_final xs) @ [buf (sv_final xs) @ CHR ''['' # ys]"
proof -
  let ?s = "sv_final xs"
  let ?p = "if xs = [] then None else Some (last xs)"
  let ?s1 = "sv_step ?p (CHR ''['') ?s"
  have s1: "parts ?s1 = parts ?s \<and> buf ?s1 = buf ?s @ ''['' \<and> 1 \<le> depth ?s1"
    using assms(1) sv_final_depth [of xs] by (simp add: sv_step_def)
  have "sv_final (xs @ CHR ''['' # ys) = sv_loop (Some (CHR ''['')) ys ?s1"
    by (simp add: sv_final_append)
  with sv_loop_deep [of ?s1 ys "Some (CHR ''['')"] s1 assms(2)
  show ?thesis by (simp add: splitVariants_def Let_def)
qed

lemma unterminated_quote:
  assumes "quote (sv_final xs) = None" "q = CHR 0x27 \<or> q = CHR 0x22" "q \<notin> set ys"
  shows "splitVariants (xs @ q # ys) = parts (sv_final xs) @ [buf (sv_final xs) @ q # ys]"
proof -
  let ?s = "sv_final xs"
  let ?p = "if xs = [] then None else Some (last xs)"
  let ?s1 = "sv_step ?p q ?s"
  have s1: "?s1 = ?s\<lparr>quote := Some q, buf := buf ?s @ [q]\<rparr>"
    using assms(1,2) by (auto simp: sv_step_def)
  have "sv_final (xs @ q # ys) = sv_loop (Some q) ys ?s1"
    by (simp add: sv_final_append)
  with sv_loop_quoted [of ?s1 q ys "Some q"] s1 assms(3)
  show ?thesis by (simp add: splitVariants_def Let_def)
qed

text \<open>
  Claim C6. \<open>splitVariants\<close> has no failing branch: the loop runs once per character of
  any string and its operations (indexing inside the string, reading \<open>token[-1]\<close>,
  \<open>push\<close>, \<open>Math.max\<close>) cannot throw, so the model is a total function with no error
  value. The state after \<open>n\<close> characters is the final state of the first \<open>n\<close>
  characters, and its depth counter is at least 0. What is returned
  is a segmentation of the token: the parts and the last buffer, joined with colons, are
  the token. A bracket that is never closed, and a quote that is never closed, keep the
  whole remainder in the last segment.
\<close>

theorem splitVariants_total:
  "(\<forall>n. sv_final t = sv_loop (if take n t = [] then None else Some (last (take n t)))
                          (drop n t) (sv_final (take n t))
        \<and> 0 \<le> depth (sv_final (take n t)))
   \<and> splitVariants t = (if buf (sv_final t) \<noteq> [] then parts (sv_final t) @ [buf (sv_final t)]
                        else parts (sv_final t))
   \<and> join '':'' (parts (sv_final t) @ [buf (sv_final t)]) = t
   \<and> (quote (sv_final xs) = None \<and> CHR '']'' \<notin> set ys \<longrightarrow>
        splitVariants (xs @ CHR ''['' # ys) = parts (sv_final xs) @ [buf (sv_final xs) @ CHR ''['' # ys])
   \<and> (quote (sv_final xs) = None \<and> (q = CHR 0x27 \<or> q = CHR 0x22) \<and> q \<notin> set ys \<longrightarrow>
        splitVariants (xs @ q # ys) = parts (sv_final xs) @ [buf (sv_final xs) @ q # ys])"
proof -
  have "splitVariants t = (if buf (sv_final t) \<noteq> [] then parts (sv_final t) @ [buf (sv_final t)]
                        else parts (sv_final t))"
    by (simp add: splitVariants_def Let_def)
  moreover have "sv_final t = sv_loop (if take n t = [] then None else Some (last (take n t)))
                          (drop n t) (sv_final (take n t))" for n
    using sv_final_append [of "take n t" "drop n t"] by simp
  ultimately show ?thesis
    using sv_final_depth sv_final_join unterminated_bracket unterminated_quote by blast
qed

theorem splitVariants_total_witness:
  "quote (sv_final ''a:b'') = None \<and> CHR '']'' \<notin> set ''c:d'' \<and> CHR 0x27 \<notin> set ''c:d''
   \<and> splitVariants ''a:b[c:d'' = [''a'', ''b[c:d'']
   \<and> splitVariants (''a:b'' @ CHR 0x27 # ''c:d'') = [''a'', ''b'' @ CHR 0x27 # ''c:d'']
   \<and> 0 \<le> depth (sv_final '']]:['')"
  using splitVariants_total [of "'']]:[''" "''a:b''" "''c:d''" "CHR 0x27"]
  by (simp add: sv_final_def sv_init_def sv_step_def)

section \<open>Properties of the prefixer\<close>

lemma prefixOneToken_root:
  "prefixOneToken t p =
     (if p = [] then t
      else if startsWith t ''!'' then ''!'' @ prefixRoot (drop 1 t) p else prefixRoot t p)"
  by (simp add: prefixOneToken_def prefixRoot_def Let_def split: prod.splits)

text \<open>
  Claim C8. With a non-empty prefix, a token that begins with \<open>!\<close> is rewritten to
  \<open>!\<close> followed by what the prefixer makes of the rest of the token, so the marker is in
  front of the prefix; for a rest that does not begin with \<open>!\<close> itself, that is \<open>!\<close>
  followed by the prefixer's result on the rest. \<open>!bg-red-500\<close> becomes \<open>!tw-bg-red-500\<close>.
\<close>

theorem important_marker_kept:
  assumes "p \<noteq> []"
  shows "prefixOneToken (CHR ''!'' # t) p = CHR ''!'' # prefixRoot t p
         \<and> (\<not> startsWith t ''!'' \<longrightarrow> prefixOneToken (CHR ''!'' # t) p = CHR ''!'' # prefixOneToken t p)
         \<and> prefixOneToken ''!bg-red-500'' ''tw-'' = ''!tw-bg-red-500''"
proof -
  have "prefixOneToken ''!bg-red-500'' ''tw-'' = ''!tw-bg-red-500''"
    by (simp add: prefixOneToken_def startsWith_def splitVariants_def sv_final_def sv_init_def
        sv_step_def pop_last_def)
  then show ?thesis using assms by (simp add: prefixOneToken_root startsWith_def)
qed

theorem important_marker_kept_witness:
  "''tw-'' \<noteq> [] \<and> \<not> startsWith ''hover:bg-red-500'' ''!''
   \<and> prefixOneToken ''!hover:bg-red-500'' ''tw-'' = ''!hover:tw-bg-red-500''"
proof -
  have h: "''tw-'' \<noteq> []" by simp
  have "prefixRoot ''hover:bg-red-500'' ''tw-'' = ''hover:tw-bg-red-500''"
    by (simp add: prefixRoot_def startsWith_def splitVariants_def sv_final_def sv_init_def
        sv_step_def pop_last_def)
  then show ?thesis
    using important_marker_kept [OF h, of "''hover:bg-red-500''"] by (simp add: startsWith_def)
qed


lemma track_loop:
  "track prev x (d, q) = Some (d', q') \<Longrightarrow>
   sv_loop prev x \<lparr>parts = ps, buf = b, depth = d, quote = q\<rparr>
     = \<lparr>parts = ps, buf = b @ x, depth = d', quote = q'\<rparr>"
proof (induction prev x "(d, q)" arbitrary: d q b rule: track.induct)
  case (1 prev)
  then show ?case by simp
next
  case (2 prev c cs d qc)
  then show ?case by (simp add: sv_step_def)
next
  case (3 prev c cs d)
  then show ?case by (auto simp: sv_step_def split: if_splits)
qed

lemma track_append:
  "track prev (x @ y) dq =
     (case track prev x dq of
        None \<Rightarrow> None
      | Some dq' \<Rightarrow> track (if x = [] then prev else Some (last x)) y dq')"
  by (induction prev x dq rule: track.induct) (auto cong: option.case_cong)

lemma track_prev: "track prev x (d, None) = track prev' x (d, None)"
  by (cases x) simp_all

lemma track_mono:
  "track prev x (d, q) = Some (d', q') \<Longrightarrow> 0 \<le> d \<Longrightarrow> d \<le> e \<Longrightarrow>
   \<exists>e'. track prev x (e, q) = Some (e', q') \<and> d' \<le> e'"
proof (induction prev x "(d, q)" arbitrary: d q e rule: track.induct)
  case (1 prev)
  then show ?case by simp
next
  case (2 prev c cs d qc)
  then show ?case by simp
next
  case (3 prev c cs d)
  show ?case
  proof (cases "c = CHR 0x27 \<or> c = CHR 0x22")
    case True
    with 3 show ?thesis by auto
  next
    case nq: False
    show ?thesis
    proof (cases "c = CHR ''[''")
      case True
      with nq 3(2) [of "e + 1"] 3(5-) show ?thesis by auto
    next
      case nb: False
      show ?thesis
      proof (cases "c = CHR '']''")
        case True
        with nq nb 3(3) [of "max 0 (e - 1)"] 3(5-) show ?thesis by auto
      next
        case ne: False
        with nq nb 3(4) [of e] 3(5-) show ?thesis by (auto split: if_splits)
      qed
    qed
  qed
qed

lemma track_plain:
  "CHR '':'' \<notin> set p \<Longrightarrow> CHR 0x27 \<notin> set p \<Longrightarrow> CHR 0x22 \<notin> set p \<Longrightarrow>
   \<exists>d'. track prev p (d, None) = Some (d', None)"
  by (induction p arbitrary: prev d) auto

lemma sv_inv_step:
  assumes "sv_inv pv s"
  shows "sv_inv (Some c) (sv_step pv c s)"
proof (cases "quote s")
  case None
  show ?thesis
  proof (cases "c = CHR '':'' \<and> depth s = 0 \<and> c \<noteq> CHR 0x27 \<and> c \<noteq> CHR 0x22
                 \<and> c \<noteq> CHR ''['' \<and> c \<noteq> CHR '']''")
    case True
    then have "sv_step pv c s = s\<lparr>parts := parts s @ [buf s], buf := []\<rparr>"
      using None by (simp add: sv_step_def)
    with assms None True show ?thesis by (simp add: sv_inv_def)
  next
    case False
    then have b: "buf (sv_step pv c s) = buf s @ [c]" "parts (sv_step pv c s) = parts s"
      using None by (auto simp: sv_step_def)
    have "track (if buf s = [] then None else Some (last (buf s))) [c] (depth s, None)
            = Some (depth (sv_step pv c s), quote (sv_step pv c s))"
      using None False by (auto simp: sv_step_def)
    then have "track None (buf s @ [c]) (0, None)
            = Some (depth (sv_step pv c s), quote (sv_step pv c s))"
      using assms None by (simp add: track_append sv_inv_def)
    with assms b show ?thesis by (simp add: sv_inv_def)
  qed
next
  case (Some q)
  then have pv: "buf s \<noteq> []" "pv = Some (last (buf s))"
    using assms by (simp_all add: sv_inv_def)
  have b: "buf (sv_step pv c s) = buf s @ [c]" "parts (sv_step pv c s) = parts s"
    using Some by (auto simp: sv_step_def)
  have "track pv [c] (depth s, Some q) = Some (depth (sv_step pv c s), quote (sv_step pv c s))"
    using Some by (simp add: sv_step_def)
  then have "track None (buf s @ [c]) (0, None)
            = Some (depth (sv_step pv c s), quote (sv_step pv c s))"
    using assms Some pv by (simp add: track_append sv_inv_def)
  with assms b show ?thesis by (simp add: sv_inv_def)
qed

lemma sv_inv_loop: "sv_inv pv s \<Longrightarrow> \<exists>pv'. sv_inv pv' (sv_loop pv x s)"
proof (induction x arbitrary: pv s)
  case Nil
  then show ?case by auto
next
  case (Cons c x)
  from Cons.IH [OF sv_inv_step [OF Cons.prems, of c]] show ?case by simp
qed

lemma sv_inv_final: "\<exists>pv. sv_inv pv (sv_final t)"
proof -
  have "sv_inv None sv_init" by (simp add: sv_inv_def sv_init_def)
  then show ?thesis unfolding sv_final_def by (rule sv_inv_loop)
qed

lemma join_Cons: "ys \<noteq> [] \<Longrightarrow> join sep (x # ys) = x @ sep @ join sep ys"
  by (cases ys) simp_all

lemma resplit:
  assumes "list_all (\<lambda>x. track None x (0, None) = Some (0, None)) xs"
    and "track None y (0, None) = Some (d, q)"
  shows "sv_loop prev (join '':'' (xs @ [y])) \<lparr>parts = ps, buf = [], depth = 0, quote = None\<rparr>
           = \<lparr>parts = ps @ xs, buf = y, depth = d, quote = q\<rparr>"
  using assms(1)
proof (induction xs arbitrary: ps prev)
  case Nil
  have "track prev y (0, None) = Some (d, q)" using assms(2) track_prev [of prev y 0 None] by simp
  from track_loop [OF this, of ps "[]"] show ?case by simp
next
  case (Cons x xs)
  then have "track prev x (0, None) = Some (0, None)" using track_prev [of prev x 0 None] by simp
  from track_loop [OF this, of ps "[]"]
  have a: "sv_loop prev x \<lparr>parts = ps, buf = [], depth = 0, quote = None\<rparr>
        = \<lparr>parts = ps, buf = x, depth = 0, quote = None\<rparr>" by simp
  have j: "join '':'' ((x # xs) @ [y]) = x @ CHR '':'' # join '':'' (xs @ [y])"
    using join_Cons [of "xs @ [y]" "'':''" x] by simp
  have s: "sv_step pv CHR '':'' \<lparr>parts = ps, buf = x, depth = 0, quote = None\<rparr>
        = \<lparr>parts = ps @ [x], buf = [], depth = 0, quote = None\<rparr>" for pv
    by (simp add: sv_step_def)
  from Cons.prems have xs: "list_all (\<lambda>x. track None x (0, None) = Some (0, None)) xs" by simp
  show ?case
    unfolding j using Cons.IH [OF xs, of "Some CHR '':''" "ps @ [x]"]
    by (simp add: sv_loop_append a s)
qed

lemma splitVariants_resplit:
  assumes "list_all (\<lambda>x. track None x (0, None) = Some (0, None)) xs"
    and "track None y (0, None) = Some (d, q)" and "y \<noteq> []"
  shows "splitVariants (join '':'' (xs @ [y])) = xs @ [y]"
  using resplit [OF assms(1,2), of None "[]"] assms(3)
  by (simp add: splitVariants_def sv_final_def sv_init_def)

lemma pop_last_split:
  assumes "pop_last (splitVariants t) = (segs, l)"
  shows "list_all (\<lambda>x. track None x (0, None) = Some (0, None)) segs
         \<and> (\<exists>d q. track None l (0, None) = Some (d, q) \<and> 0 \<le> d)"
proof -
  obtain pv where inv: "sv_inv pv (sv_final t)" using sv_inv_final by blast
  let ?f = "sv_final t"
  show ?thesis
  proof (cases "buf ?f \<noteq> []")
    case True
    then have "segs = parts ?f" "l = buf ?f"
      using assms by (simp_all add: splitVariants_def pop_last_def Let_def)
    with inv sv_final_depth [of t] show ?thesis by (auto simp: sv_inv_def)
  next
    case False
    then have sp: "splitVariants t = parts ?f" by (simp add: splitVariants_def Let_def)
    show ?thesis
    proof (cases "parts ?f = []")
      case True
      with sp assms show ?thesis by (simp add: pop_last_def)
    next
      case ne: False
      then have e: "segs = butlast (parts ?f)" "l = last (parts ?f)"
        using sp assms by (simp_all add: pop_last_def)
      from inv have all: "\<forall>x\<in>set (parts ?f). track None x (0, None) = Some (0, None)"
        by (simp add: sv_inv_def list_all_iff)
      then have "track None l (0, None) = Some (0, None)" using e ne by simp
      moreover have "list_all (\<lambda>x. track None x (0, None) = Some (0, None)) segs"
        using all e by (auto simp: list_all_iff dest: in_set_butlastD)
      ultimately show ?thesis by auto
    qed
  qed
qed

lemma track_nonneg: "track prev x (d, q) = Some (d', q') \<Longrightarrow> 0 \<le> d \<Longrightarrow> 0 \<le> d'"
  by (induction prev x "(d, q)" arbitrary: d q rule: track.induct) (auto split: if_splits)

lemma track_prefixed:
  assumes "CHR '':'' \<notin> set p" "CHR 0x27 \<notin> set p" "CHR 0x22 \<notin> set p"
    and "track None l (0, None) = Some (d, q)"
  shows "\<exists>e q'. track None (p @ l) (0, None) = Some (e, q')"
proof -
  obtain d' where p: "track None p (0, None) = Some (d', None)"
    using track_plain [OF assms(1-3)] by blast
  then have "0 \<le> d'" using track_nonneg by blast
  from track_mono [OF assms(4) _ this]
  obtain e where "track None l (d', None) = Some (e, q)" by auto
  then have "track (if p = [] then None else Some (last p)) l (d', None) = Some (e, q)"
    using track_prev [of None l d'] by simp
  with p show ?thesis by (simp add: track_append)
qed

lemma startsWith_bang: "startsWith s ''!'' = (s \<noteq> [] \<and> hd s = CHR ''!'')"
  by (cases s) (simp_all add: startsWith_def)

lemma startsWith_hd: "p \<noteq> [] \<Longrightarrow> startsWith l p \<Longrightarrow> l \<noteq> [] \<and> hd l = hd p"
  by (cases p; cases l) (auto simp: startsWith_def)

lemma startsWith_append: "startsWith (p @ l) p"
  by (simp add: startsWith_def)

lemma prefixRoot_shape:
  assumes "p \<noteq> []" "CHR '':'' \<notin> set p" "CHR 0x27 \<notin> set p" "CHR 0x22 \<notin> set p"
  shows "\<exists>segs l'. prefixRoot t p = join '':'' (segs @ [l']) \<and> startsWith l' p
           \<and> splitVariants (prefixRoot t p) = segs @ [l']"
proof -
  obtain segs l where pl: "pop_last (splitVariants t) = (segs, l)" by (cases "pop_last (splitVariants t)")
  from pop_last_split [OF pl]
  obtain d q where cl: "list_all (\<lambda>x. track None x (0, None) = Some (0, None)) segs"
    and tl: "track None l (0, None) = Some (d, q)" by blast
  let ?l = "if startsWith l p then l else p @ l"
  have r: "prefixRoot t p = join '':'' (segs @ [?l])" by (simp add: prefixRoot_def pl)
  have sw: "startsWith ?l p" by (simp add: startsWith_append)
  have ne: "?l \<noteq> []" using assms(1) startsWith_hd [OF assms(1), of l] by auto
  obtain e q' where "track None ?l (0, None) = Some (e, q')"
    using tl track_prefixed [OF assms(2-4) tl] by (cases "startsWith l p") auto
  from splitVariants_resplit [OF cl this ne] r sw show ?thesis by metis
qed

lemma prefixRoot_idem:
  assumes "p \<noteq> []" "CHR '':'' \<notin> set p" "CHR 0x27 \<notin> set p" "CHR 0x22 \<notin> set p"
  shows "prefixRoot (prefixRoot t p) p = prefixRoot t p"
proof -
  from prefixRoot_shape [OF assms, of t]
  obtain segs l' where r: "prefixRoot t p = join '':'' (segs @ [l'])" and sw: "startsWith l' p"
    and sp: "splitVariants (prefixRoot t p) = segs @ [l']" by blast
  have "pop_last (splitVariants (prefixRoot t p)) = (segs, l')" by (simp add: sp pop_last_def)
  then have "prefixRoot (prefixRoot t p) p = join '':'' (segs @ [l'])"
    using sw by (simp add: prefixRoot_def [of "prefixRoot t p"])
  with r show ?thesis by simp
qed

lemma hd_join: "xs \<noteq> [] \<Longrightarrow> hd xs \<noteq> [] \<Longrightarrow> hd (join sep xs) = hd (hd xs)"
  by (induction sep xs rule: join.induct) simp_all

lemma prefixRoot_no_bang:
  assumes "p \<noteq> []" "\<not> startsWith p ''!''" "\<not> startsWith t ''!''"
  shows "\<not> startsWith (prefixRoot t p) ''!''"
proof -
  obtain segs l where pl: "pop_last (splitVariants t) = (segs, l)" by (cases "pop_last (splitVariants t)")
  let ?l = "if startsWith l p then l else p @ l"
  have r: "prefixRoot t p = join '':'' (segs @ [?l])" by (simp add: prefixRoot_def pl)
  have hl: "?l \<noteq> [] \<and> hd ?l = hd p" using assms(1) startsWith_hd [OF assms(1), of l] by auto
  have hp: "hd p \<noteq> CHR ''!''" using assms(1,2) by (simp add: startsWith_bang)
  show ?thesis
  proof (cases segs)
    case Nil
    with r hl hp show ?thesis by (simp add: startsWith_bang)
  next
    case (Cons s1 rest)
    then have ne: "splitVariants t \<noteq> []" using pl by (auto simp: pop_last_def)
    then have sv: "splitVariants t = s1 # rest @ [l]"
      using pl Cons by (auto simp: pop_last_def) (metis append_butlast_last_id append_Cons)
    have jt: "join '':'' (splitVariants t) = s1 @ '':'' @ join '':'' (rest @ [l])"
      unfolding sv by (simp add: join_Cons)
    have jr: "prefixRoot t p = s1 @ '':'' @ join '':'' (rest @ [?l])"
      unfolding r Cons by (simp add: join_Cons)
    show ?thesis
    proof (cases "s1 = []")
      case True
      with jr show ?thesis by (simp add: startsWith_bang)
    next
      case False
      from splitVariants_join_cases [of t] jt
      have "hd t = hd s1" using False by (metis append_assoc hd_append2)
      moreover have "t \<noteq> []" using ne by (auto simp: splitVariants_def sv_final_def sv_init_def)
      ultimately have "hd s1 \<noteq> CHR ''!''" using assms(3) by (simp add: startsWith_bang)
      with jr False show ?thesis by (simp add: startsWith_bang)
    qed
  qed
qed


text \<open>
  Claim C1, as amended. For every token and every prefix that has no colon and no quote
  character and does not begin with \<open>!\<close>, applying the token prefixer twice is the same
  as applying it once.
\<close>

theorem prefixOneToken_idem:
  assumes "CHR '':'' \<notin> set p" "CHR 0x27 \<notin> set p" "CHR 0x22 \<notin> set p" "\<not> startsWith p ''!''"
  shows "prefixOneToken (prefixOneToken t p) p = prefixOneToken t p"
proof (cases "p = []")
  case True
  then show ?thesis by (simp add: prefixOneToken_def)
next
  case False
  note idem = prefixRoot_idem [OF False assms(1-3)]
  show ?thesis
  proof (cases "startsWith t ''!''")
    case True
    then have "prefixOneToken t p = CHR ''!'' # prefixRoot (drop 1 t) p"
      using False by (simp add: prefixOneToken_root)
    then show ?thesis using False idem [of "drop 1 t"]
      by (simp add: prefixOneToken_root [of "CHR ''!'' # _"] startsWith_def)
  next
    case nb: False
    then have e: "prefixOneToken t p = prefixRoot t p"
      using False by (simp add: prefixOneToken_root)
    from prefixRoot_no_bang [OF False assms(4) nb]
    show ?thesis using False idem [of t] by (simp add: e prefixOneToken_root [of "prefixRoot t p"])
  qed
qed

theorem prefixOneToken_idem_witness:
  "CHR '':'' \<notin> set ''tw-'' \<and> CHR 0x27 \<notin> set ''tw-'' \<and> CHR 0x22 \<notin> set ''tw-''
   \<and> \<not> startsWith ''tw-'' ''!''
   \<and> prefixOneToken (prefixOneToken ''hover:bg-red-500'' ''tw-'') ''tw-''
       = prefixOneToken ''hover:bg-red-500'' ''tw-''"
  using prefixOneToken_idem [of "''tw-''" "''hover:bg-red-500''"]
  by (simp add: startsWith_def)

text \<open>
  Claim C1 as the specification states it, for every prefix, fails: with the prefix
  \<open>tw:\<close> the root of \<open>tw:flex\<close> is \<open>flex\<close> again and gets a second prefix; with the
  prefix \<open>!\<close> the result \<open>!x\<close> is read as the token \<open>x\<close> with the important marker;
  with a quote as prefix the colon of \<open>x'a:b'\<close> comes out of its quotes.
\<close>

theorem prefixOneToken_idem_counterexample:
  "prefixOneToken ''flex'' ''tw:'' = ''tw:flex''
   \<and> prefixOneToken (prefixOneToken ''flex'' ''tw:'') ''tw:'' = ''tw:tw:flex''
   \<and> prefixOneToken ''x'' ''!'' = ''!x''
   \<and> prefixOneToken (prefixOneToken ''x'' ''!'') ''!'' = ''!!x''
   \<and> prefixOneToken (prefixOneToken (''x'' @ CHR 0x27 # ''a:b'' @ [CHR 0x27]) [CHR 0x27]) [CHR 0x27]
       \<noteq> prefixOneToken (''x'' @ CHR 0x27 # ''a:b'' @ [CHR 0x27]) [CHR 0x27]"
  by (simp add: prefixOneToken_def startsWith_def splitVariants_def sv_final_def sv_init_def
      sv_step_def pop_last_def)

section \<open>Properties of the classifier and the string rewriter\<close>


lemma upper_not_tw: "t = [] \<or> list_ex is_upper t \<Longrightarrow> \<not> isLikelyTailwindToken t"
  by (auto simp: isLikelyTailwindToken_def)

lemma tcis_loop_unclassified:
  "list_all (\<lambda>t. t = [] \<or> list_ex is_upper t) toks \<Longrightarrow>
   tcis_loop None p toks out = out @ filter (\<lambda>t. t \<noteq> []) toks"
proof (induction toks arbitrary: out)
  case Nil
  then show ?case by simp
next
  case (Cons a toks)
  then have "\<not> isLikelyTailwindToken a" using upper_not_tw by simp
  with Cons show ?case by simp
qed

text \<open>
  Claim C5, as amended. A token that is empty or has one of the letters \<open>A\<close> to \<open>Z\<close>
  is rejected by the default classifier, and the string rewriter, when it runs with the
  default classifier, pushes such a token as it is (an empty one is skipped); a string
  all of whose tokens are of that kind comes out as its non-empty tokens joined by single
  spaces, whatever the prefix. The letters \<open>A\<close> to \<open>Z\<close> are uppercase letters.
\<close>

theorem uppercase_rejected:
  assumes "tok = [] \<or> list_ex is_upper tok"
  shows "\<not> isLikelyTailwindToken tok
         \<and> tcis_loop None prefix (tok # toks) out
             = tcis_loop None prefix toks (if tok = [] then out else out @ [tok])
         \<and> (list_all (\<lambda>t. t = [] \<or> list_ex is_upper t) (split_ws False [] input) \<longrightarrow>
              transformClassesInString input prefix None
                = join '' '' (filter (\<lambda>t. t \<noteq> []) (split_ws False [] input)))
         \<and> (list_ex is_upper tok \<longrightarrow> list_ex is_uppercase_letter tok)"
proof -
  have "is_uppercase_letter c" if "is_upper c" for c
    using that by (auto simp: is_upper_def is_uppercase_letter_def)
  then have "list_ex is_upper tok \<longrightarrow> list_ex is_uppercase_letter tok"
    by (auto simp: list_ex_iff)
  then show ?thesis
    using upper_not_tw [OF assms] tcis_loop_unclassified [of "split_ws False [] input" prefix "[]"]
    by (simp add: transformClassesInString_def)
qed

theorem uppercase_rejected_witness:
  "list_ex is_upper ''MyClass'' \<and> \<not> isLikelyTailwindToken ''MyClass''
   \<and> list_all (\<lambda>t. t = [] \<or> list_ex is_upper t) (split_ws False [] ''MyClass  bg-Red'')
   \<and> transformClassesInString ''MyClass  bg-Red'' ''tw-'' None = ''MyClass bg-Red''"
proof -
  have h: "''MyClass'' = [] \<or> list_ex is_upper ''MyClass''" by (simp add: is_upper_def)
  show ?thesis
    using uppercase_rejected [OF h, of "''tw-''" "[]" "[]" "''MyClass  bg-Red''"]
    by (simp add: is_upper_def is_space_def)
qed

text \<open>
  Claim C5 as the specification states it, for every uppercase letter, fails: the
  classifier tests \<open>[A-Z]\<close> only. \<open>U+00C9\<close>, the capital E with acute accent, is an
  uppercase letter that the test does not see, so the token \<open>bg-\<close> followed by it is
  classified as a utility by its root \<open>bg\<close> and is rewritten with the prefix.
\<close>

theorem uppercase_rejected_counterexample:
  "is_uppercase_letter (CHR 0xC9) \<and> list_ex is_uppercase_letter (''bg-'' @ [CHR 0xC9])
   \<and> isLikelyTailwindToken (''bg-'' @ [CHR 0xC9])
   \<and> transformClassesInString (''bg-'' @ [CHR 0xC9]) ''tw-'' None = ''tw-bg-'' @ [CHR 0xC9]"
  by code_simp

lemma split_ws_word:
  "x \<noteq> [] \<Longrightarrow> \<not> list_ex is_space x \<Longrightarrow>
   split_ws inws cur (x @ rest) = split_ws False (cur @ x) rest"
proof (induction x arbitrary: inws cur)
  case Nil
  then show ?case by simp
next
  case (Cons c x)
  show ?case
  proof (cases "x = []")
    case True
    with Cons.prems show ?thesis by simp
  next
    case False
    with Cons.prems Cons.IH [of False "cur @ [c]"] show ?thesis by simp
  qed
qed

lemma split_ws_join:
  "toks \<noteq> [] \<Longrightarrow> list_all (\<lambda>t. t \<noteq> [] \<and> \<not> list_ex is_space t) toks \<Longrightarrow>
   split_ws inws [] (join '' '' toks) = toks"
proof (induction toks arbitrary: inws rule: induct_list012)
  case 1
  then show ?case by simp
next
  case (2 x)
  then show ?case using split_ws_word [of x inws "[]" "[]"] by simp
next
  case (3 x y zs)
  have "split_ws inws [] (x @ '' '' @ join '' '' (y # zs)) = split_ws False x ('' '' @ join '' '' (y # zs))"
    using 3 split_ws_word [of x inws "[]"] by simp
  also have "\<dots> = x # split_ws True [] (join '' '' (y # zs))"
    by (simp add: is_space_def)
  also have "\<dots> = x # y # zs" using 3 by simp
  finally show ?case by simp
qed

lemma tokens_join:
  "list_all (\<lambda>t. t \<noteq> [] \<and> \<not> list_ex is_space t) toks \<Longrightarrow>
   filter (\<lambda>t. t \<noteq> []) (split_ws False [] (join '' '' toks)) = toks"
proof (cases "toks = []")
  case True
  then show ?thesis by simp
next
  case False
  assume a: "list_all (\<lambda>t. t \<noteq> [] \<and> \<not> list_ex is_space t) toks"
  then have "filter (\<lambda>t. t \<noteq> []) toks = toks" by (induction toks) auto
  with False a show ?thesis by (simp add: split_ws_join)
qed

lemma prefixOneToken_empty: "prefixOneToken t [] = t"
  by (simp add: prefixOneToken_def)

lemma tcis_loop_empty: "tcis_loop isTw [] toks out = out @ filter (\<lambda>t. t \<noteq> []) toks"
  by (induction toks arbitrary: out) (simp_all add: prefixOneToken_empty)

lemma tcis_empty_prefix:
  "transformClassesInString input [] isTw = join '' '' (filter (\<lambda>t. t \<noteq> []) (split_ws False [] input))"
  by (simp add: transformClassesInString_def tcis_loop_empty)

text \<open>
  Claim C9, as amended. With the empty prefix \<open>prefixOneToken\<close> returns every token as it
  is, and the string rewriter pushes every non-empty token as it is: its result is the
  non-empty white-space-delimited tokens of the input joined by single spaces, so a string
  that already has that form is unchanged.
\<close>

theorem empty_prefix_noop:
  "prefixOneToken t [] = t
   \<and> tcis_loop isTw [] toks out = out @ filter (\<lambda>t. t \<noteq> []) toks
   \<and> transformClassesInString input [] isTw
       = join '' '' (filter (\<lambda>t. t \<noteq> []) (split_ws False [] input))
   \<and> (list_all (\<lambda>t. t \<noteq> [] \<and> \<not> list_ex is_space t) ws \<longrightarrow>
        transformClassesInString (join '' '' ws) [] isTw = join '' '' ws)"
proof -
  have a: "prefixOneToken t [] = t" by (rule prefixOneToken_empty)
  have b: "tcis_loop isTw [] toks out = out @ filter (\<lambda>t. t \<noteq> []) toks"
    by (rule tcis_loop_empty)
  have c: "transformClassesInString input [] isTw
       = join '' '' (filter (\<lambda>t. t \<noteq> []) (split_ws False [] input))"
    by (rule tcis_empty_prefix)
  have d: "transformClassesInString (join '' '' ws) [] isTw = join '' '' ws"
    if "list_all (\<lambda>t. t \<noteq> [] \<and> \<not> list_ex is_space t) ws"
    using tokens_join [OF that] by (simp add: tcis_empty_prefix)
  from a b c d show ?thesis by blast
qed

theorem empty_prefix_noop_witness:
  "list_all (\<lambda>t. t \<noteq> [] \<and> \<not> list_ex is_space t) [''flex'', ''MyClass'']
   \<and> transformClassesInString ''flex MyClass'' [] None = ''flex MyClass''"
  using empty_prefix_noop [where ws = "[''flex'', ''MyClass'']" and isTw = None and t = "[]"
      and toks = "[]" and out = "[]" and input = "[]"]
  by (simp add: is_space_def)

text \<open>
  Claim C9 as the specification states it fails on a class string with a run of two
  spaces: the rewriter returns it with one space, and the attribute that holds it changes.
\<close>

theorem empty_prefix_noop_counterexample:
  "transformClassesInString ''flex  p-4'' [] None = ''flex p-4''
   \<and> transformClassesInString ''flex  p-4'' [] None \<noteq> ''flex  p-4''
   \<and> visit_JSXAttribute [''className'', ''class'', ''tw''] [] None (JSXIdentifier ''className'')
        (Some (StringLiteral ''flex  p-4'')) \<noteq> Some (StringLiteral ''flex  p-4'')"
proof -
  have "transformClassesInString ''flex  p-4'' [] None = ''flex p-4''"
    by (simp add: tcis_empty_prefix is_space_def)
  then show ?thesis by (simp add: visit_JSXAttribute_def helper_call_def)
qed
















section \<open>Properties of the visitor\<close>

lemma static_none: "es \<noteq> [] \<Longrightarrow> transformTemplateLiteralIfStatic qs es p isTw = None"
  by (simp add: transformTemplateLiteralIfStatic_def)

lemma rewrite_arg_dynamic: "es \<noteq> [] \<Longrightarrow> rewrite_arg p isTw (TemplateLiteral qs es) = TemplateLiteral qs es"
  by (simp add: static_none)

lemma helper_call_shape:
  "helper_call p isTw (Some (JSXExpressionContainer (CallExpression callee args))) =
     Some (JSXExpressionContainer (CallExpression callee
       (if callee = Identifier ''clsx'' \<or> callee = Identifier ''classnames''
        then map (rewrite_arg p isTw) args else args)))"
  by (auto simp: helper_call_def split: node.splits)

lemma visit_call:
  "visit_JSXAttribute attrs p isTw name (Some (JSXExpressionContainer (CallExpression callee args))) =
     Some (JSXExpressionContainer (CallExpression callee
       (if isTargetJSXAttribute name attrs
           \<and> (callee = Identifier ''clsx'' \<or> callee = Identifier ''classnames'')
        then map (rewrite_arg p isTw) args else args)))"
  by (simp add: visit_JSXAttribute_def helper_call_shape)

text \<open>
  Claim C7. For a template literal with at least one interpolated expression,
  \<open>transformTemplateLiteralIfStatic\<close> returns \<open>null\<close>, whatever its literal segments
  hold; the handler leaves it as it is when it is the value of the attribute, when it is
  an argument of a helper call and when it is the right operand of a logical argument;
  and the traversal keeps its literal segments.
\<close>

theorem dynamic_template_untouched:
  assumes "es \<noteq> []"
  shows "transformTemplateLiteralIfStatic qs es p isTw = None
    \<and> visit_JSXAttribute attrs p isTw name (Some (JSXExpressionContainer (TemplateLiteral qs es)))
        = Some (JSXExpressionContainer (TemplateLiteral qs es))
    \<and> rewrite_arg p isTw (TemplateLiteral qs es) = TemplateLiteral qs es
    \<and> rewrite_arg p isTw (LogicalExpression operator l (TemplateLiteral qs es))
        = LogicalExpression operator l (TemplateLiteral qs es)
    \<and> (\<exists>as' bs'. length as' = length as \<and> length bs' = length bs
          \<and> visit_JSXAttribute attrs p isTw name
              (Some (JSXExpressionContainer (CallExpression callee (as @ TemplateLiteral qs es # bs))))
            = Some (JSXExpressionContainer (CallExpression callee (as' @ TemplateLiteral qs es # bs'))))
    \<and> traverse attrs p isTw (TemplateLiteral qs es)
        = TemplateLiteral qs (map (traverse attrs p isTw) es)"
proof -
  have a: "transformTemplateLiteralIfStatic qs es p isTw = None"
    using assms by (rule static_none)
  have b: "visit_JSXAttribute attrs p isTw name (Some (JSXExpressionContainer (TemplateLiteral qs es)))
        = Some (JSXExpressionContainer (TemplateLiteral qs es))"
    by (simp add: visit_JSXAttribute_def helper_call_def a)
  have c: "rewrite_arg p isTw (TemplateLiteral qs es) = TemplateLiteral qs es"
    by (simp add: a)
  have d: "rewrite_arg p isTw (LogicalExpression operator l (TemplateLiteral qs es))
        = LogicalExpression operator l (TemplateLiteral qs es)"
    by (simp add: a)
  have e: "\<exists>as' bs'. length as' = length as \<and> length bs' = length bs
          \<and> visit_JSXAttribute attrs p isTw name
              (Some (JSXExpressionContainer (CallExpression callee (as @ TemplateLiteral qs es # bs))))
            = Some (JSXExpressionContainer (CallExpression callee (as' @ TemplateLiteral qs es # bs')))"
  proof (cases "isTargetJSXAttribute name attrs
           \<and> (callee = Identifier ''clsx'' \<or> callee = Identifier ''classnames'')")
    case True
    then have "visit_JSXAttribute attrs p isTw name
              (Some (JSXExpressionContainer (CallExpression callee (as @ TemplateLiteral qs es # bs))))
       = Some (JSXExpressionContainer (CallExpression callee
           (map (rewrite_arg p isTw) as @ TemplateLiteral qs es # map (rewrite_arg p isTw) bs)))"
      by (simp add: visit_call c del: rewrite_arg.simps)
    moreover have "length (map (rewrite_arg p isTw) as) = length as"
      "length (map (rewrite_arg p isTw) bs) = length bs" by simp_all
    ultimately show ?thesis by blast
  next
    case False
    then have "visit_JSXAttribute attrs p isTw name
              (Some (JSXExpressionContainer (CallExpression callee (as @ TemplateLiteral qs es # bs))))
       = Some (JSXExpressionContainer (CallExpression callee (as @ TemplateLiteral qs es # bs)))"
      by (simp only: visit_call if_False)
    then show ?thesis by blast
  qed
  have f: "traverse attrs p isTw (TemplateLiteral qs es)
        = TemplateLiteral qs (map (traverse attrs p isTw) es)" by simp
  from a b c d e f show ?thesis by blast
qed

theorem dynamic_template_untouched_witness:
  "[Identifier ''size''] \<noteq> []
   \<and> visit_JSXAttribute [''className''] ''tw-'' None (JSXIdentifier ''className'')
       (Some (JSXExpressionContainer
          (TemplateLiteral [TemplateElement (Some ''flex p-'') ''flex p-'', TemplateElement (Some '''') '''']
             [Identifier ''size''])))
     = Some (JSXExpressionContainer
          (TemplateLiteral [TemplateElement (Some ''flex p-'') ''flex p-'', TemplateElement (Some '''') '''']
             [Identifier ''size'']))"
proof -
  have h: "[Identifier ''size''] \<noteq> []" by simp
  show ?thesis
    using dynamic_template_untouched [OF h, of
        "[TemplateElement (Some ''flex p-'') ''flex p-'', TemplateElement (Some '''') '''']"
        "''tw-''" None "[''className'']" "JSXIdentifier ''className''"]
    by simp
qed

lemma rewrite_arg_other:
  assumes "\<forall>v. arg \<noteq> StringLiteral v" "\<forall>qs. arg \<noteq> TemplateLiteral qs []"
    "\<forall>operator l v. arg \<noteq> LogicalExpression operator l (StringLiteral v)"
    "\<forall>operator l qs. arg \<noteq> LogicalExpression operator l (TemplateLiteral qs [])"
  shows "rewrite_arg p isTw arg = arg"
  using assms
  by (induction p isTw arg rule: rewrite_arg.induct)
     (auto simp: transformTemplateLiteralIfStatic_def)

lemma rewrite_arg_logical:
  "\<exists>r'. rewrite_arg p isTw (LogicalExpression operator l r) = LogicalExpression operator l r'"
  by (cases r) (auto simp: transformTemplateLiteralIfStatic_def)

text \<open>
  Claim C4, as amended. In a helper call in a target attribute the callee is kept and each
  argument is replaced by \<open>rewrite_arg\<close> of it. An argument that is not a string literal,
  a template literal without interpolation, or a logical expression (with any operator:
  \<open>&&\<close>, \<open>||\<close> or \<open>??\<close>) whose right operand is one of these two, is left as it is. Of a
  logical expression only the right operand can change: the operator and the left operand
  are kept.
\<close>

theorem helper_arguments_frame:
  "((\<forall>v. arg \<noteq> StringLiteral v) \<and> (\<forall>qs. arg \<noteq> TemplateLiteral qs [])
      \<and> (\<forall>operator l v. arg \<noteq> LogicalExpression operator l (StringLiteral v))
      \<and> (\<forall>operator l qs. arg \<noteq> LogicalExpression operator l (TemplateLiteral qs []))
      \<longrightarrow> rewrite_arg p isTw arg = arg)
   \<and> (\<exists>r'. rewrite_arg p isTw (LogicalExpression operator l r) = LogicalExpression operator l r')
   \<and> rewrite_arg p isTw (LogicalExpression operator l (StringLiteral v))
       = LogicalExpression operator l (StringLiteral (transformClassesInString v p isTw))
   \<and> visit_JSXAttribute attrs p isTw name
        (Some (JSXExpressionContainer (CallExpression callee args)))
       = Some (JSXExpressionContainer (CallExpression callee
           (if isTargetJSXAttribute name attrs
               \<and> (callee = Identifier ''clsx'' \<or> callee = Identifier ''classnames'')
            then map (rewrite_arg p isTw) args else args)))"
  using rewrite_arg_other [of arg p isTw] rewrite_arg_logical [of p isTw operator l r]
    visit_call [of attrs p isTw name callee args]
  by simp

theorem helper_arguments_frame_witness:
  "rewrite_arg ''tw-'' None (OtherNode ''ObjectExpression'' [Identifier ''flex''])
     = OtherNode ''ObjectExpression'' [Identifier ''flex'']
   \<and> rewrite_arg ''tw-'' None (LogicalExpression ''&&'' (Identifier ''flex'') (StringLiteral ''MyClass''))
     = LogicalExpression ''&&'' (Identifier ''flex'') (StringLiteral ''MyClass'')"
proof -
  note t = helper_arguments_frame [where arg = "OtherNode ''ObjectExpression'' [Identifier ''flex'']"
      and p = "''tw-''" and isTw = None and operator = "''&&''" and l = "Identifier ''flex''"
      and v = "''MyClass''" and r = "StringLiteral ''MyClass''" and attrs = "[]"
      and name = "JSXIdentifier ''class''" and callee = "Identifier ''clsx''" and args = "[]"]
  from t have a: "rewrite_arg ''tw-'' None (OtherNode ''ObjectExpression'' [Identifier ''flex''])
     = OtherNode ''ObjectExpression'' [Identifier ''flex'']" by simp
  from t have b: "rewrite_arg ''tw-'' None (LogicalExpression ''&&'' (Identifier ''flex'') (StringLiteral ''MyClass''))
       = LogicalExpression ''&&'' (Identifier ''flex'') (StringLiteral (transformClassesInString ''MyClass'' ''tw-'' None))"
    by blast
  have c1: "split_ws False [] ''MyClass'' = [''MyClass'']" by (simp add: is_space_def)
  have c2: "\<not> isLikelyTailwindToken ''MyClass''"
    by (simp add: isLikelyTailwindToken_def is_upper_def)
  have c: "transformClassesInString ''MyClass'' ''tw-'' None = ''MyClass''"
    unfolding transformClassesInString_def c1 by (simp add: c2)
  from a b c show ?thesis by simp
qed

text \<open>
  Claim C4 as the specification states it fails on a logical expression that is not a
  logical AND: the right operand of \<open>cond || "flex"\<close> is rewritten.
\<close>

theorem helper_arguments_frame_counterexample:
  "visit_JSXAttribute [''className'', ''class'', ''tw''] ''tw-'' None (JSXIdentifier ''className'')
     (Some (JSXExpressionContainer (CallExpression (Identifier ''clsx'')
        [LogicalExpression ''||'' (Identifier ''cond'') (StringLiteral ''flex'')])))
   = Some (JSXExpressionContainer (CallExpression (Identifier ''clsx'')
        [LogicalExpression ''||'' (Identifier ''cond'') (StringLiteral ''tw-flex'')]))
   \<and> visit_JSXAttribute [''className'', ''class'', ''tw''] ''tw-'' None (JSXIdentifier ''className'')
     (Some (JSXExpressionContainer (CallExpression (Identifier ''clsx'')
        [LogicalExpression ''||'' (Identifier ''cond'') (StringLiteral ''flex'')])))
   \<noteq> Some (JSXExpressionContainer (CallExpression (Identifier ''clsx'')
        [LogicalExpression ''||'' (Identifier ''cond'') (StringLiteral ''flex'')]))"
proof -
  have tw: "isLikelyTailwindToken ''flex''"
    by (simp add: isLikelyTailwindToken_def splitVariants_def sv_final_def sv_init_def sv_step_def
        is_upper_def TW_ROOTS_def)
  have px: "prefixOneToken ''flex'' ''tw-'' = ''tw-flex''"
    by (simp add: prefixOneToken_def startsWith_def splitVariants_def sv_final_def sv_init_def
        sv_step_def pop_last_def)
  have sp: "split_ws False [] ''flex'' = [''flex'']" by (simp add: is_space_def)
  have "transformClassesInString ''flex'' ''tw-'' None = ''tw-flex''"
    unfolding transformClassesInString_def sp by (simp add: tw px)
  then show ?thesis by (simp add: visit_call)
qed

section \<open>Properties of the plugin hooks\<close>












section \<open>Properties of the whole pass\<close>
















end
